theory Spec2Isabelle
  imports Complex_Main
begin

section \<open>Arrays, errors and the NumPy operations the notebook calls\<close>

text \<open>
  The notebook on nonlinear regression works on one-dimensional float arrays. They are
  modelled as lists of real numbers: \<open>exp\<close>, \<open>sqrt\<close>, subtraction and division are
  the exact real operations, so rounding, \<open>inf\<close> and \<open>nan\<close> of float64 are outside
  the model (a division by zero is \<open>0\<close> here, as in HOL). Every Python exception
  is a value \<open>Inl e\<close>; \<open>and_then\<close> passes the first one on, as the exception would
  leave the cell.
\<close>

datatype py_error = ValueError | IndexError | OSError

type_synonym array = "real list"

definition and_then :: "'e + 'a \<Rightarrow> ('a \<Rightarrow> 'e + 'b) \<Rightarrow> 'e + 'b" where
  "and_then r f = (case r of Inl e \<Rightarrow> Inl e | Inr v \<Rightarrow> f v)"

text \<open>\<open>xs[i]\<close> for an index \<open>i \<ge> 0\<close>: IndexError out of range.\<close>

definition getitem :: "'a list \<Rightarrow> nat \<Rightarrow> py_error + 'a" where
  "getitem xs i = (if i < length xs then Inr (xs ! i) else Inl IndexError)"

text \<open>
  An elementwise binary operation on two one-dimensional arrays, with NumPy's
  broadcasting: equal shapes pair up, a shape \<open>(1,)\<close> is stretched, anything else
  raises ValueError.
\<close>

definition broadcast :: "(real \<Rightarrow> real \<Rightarrow> 'a) \<Rightarrow> array \<Rightarrow> array \<Rightarrow> py_error + 'a list" where
  "broadcast f xs ys =
     (if length xs = length ys then Inr (map2 f xs ys)
      else if length ys = 1 then Inr (map (\<lambda>x. f x (hd ys)) xs)
      else if length xs = 1 then Inr (map (\<lambda>y. f (hd xs) y) ys)
      else Inl ValueError)"

text \<open>\<open>a.max()\<close>: ValueError on an empty array.\<close>

definition amax :: "array \<Rightarrow> py_error + real" where
  "amax xs = (case xs of [] \<Rightarrow> Inl ValueError | x # r \<Rightarrow> Inr (fold max r x))"

fun first_index :: "real \<Rightarrow> array \<Rightarrow> nat" where
  "first_index v [] = 0"
| "first_index v (x # xs) = (if x = v then 0 else Suc (first_index v xs))"

text \<open>\<open>a.argmax()\<close>: the index of the first occurrence of the maximum.\<close>

definition argmax :: "array \<Rightarrow> py_error + nat" where
  "argmax xs = and_then (amax xs) (\<lambda>m. Inr (first_index m xs))"

definition expm1 :: "real \<Rightarrow> real" where
  "expm1 z = exp z - 1"

section \<open>Loading and truncating the decay curves\<close>

text \<open>
  A loaded file is a two-dimensional array with two columns, a list of rows
  \<open>(time, count)\<close>: \<open>d[:,0]\<close> is \<open>map fst d\<close> and \<open>d[:,1]\<close> is \<open>map snd d\<close>;
  with \<open>unpack=True\<close> these are the arrays \<open>t\<close> and \<open>F\<close>. (\<open>np.loadtxt\<close> returns
  such an array for a file with two or more rows of data.)
\<close>

type_synonym dataset = "(real \<times> real) list"

text \<open>
  The plotting cell:
  \<^verbatim>\<open>d = d[ d[:,0] > d[d[:,1]==d[:,1].max(), 0] ] # points before the intesity max are discarded\<close>
\<close>

definition truncate_mask :: "dataset \<Rightarrow> py_error + dataset" where
  "truncate_mask d =
     and_then (amax (map snd d)) (\<lambda>mx.
     and_then (broadcast (\<lambda>a b. b < a) (map fst d) (map fst (filter (\<lambda>r. snd r = mx) d))) (\<lambda>mask.
     Inr (map fst (filter snd (zip d mask)))))"

text \<open>
  The cell that builds the dataframe:
  \<^verbatim>\<open>t = t[F.argmax():]\<close>, \<^verbatim>\<open>F = F[F.argmax():]\<close>.
  The second \<open>F.argmax()\<close> is evaluated before \<open>F\<close> is rebound.
\<close>

definition truncate_slice :: "dataset \<Rightarrow> py_error + array \<times> array" where
  "truncate_slice d =
     (let t = map fst d; F = map snd d in
      and_then (argmax F) (\<lambda>k.
      and_then (argmax F) (\<lambda>k'.
      Inr (drop k t, drop k' F))))"

record frame_row =
  idx_conc :: real
  col_t :: real
  col_F :: real
  col_errF :: real

type_synonym frame = "frame_row list"

text \<open>
  One pass of the loop body after the file is read:
  \<^verbatim>\<open>t = t - t[0]\<close>,
  \<^verbatim>\<open>d = pd.DataFrame(data=np.c_[t,F,np.sqrt(F)],columns=['t','F','errF'])\<close>,
  \<^verbatim>\<open>d['conc'] = conc\<close>, \<^verbatim>\<open>d.set_index('conc',inplace=True)\<close>.
\<close>

definition block :: "real \<Rightarrow> dataset \<Rightarrow> py_error + frame" where
  "block c d =
     and_then (truncate_slice d) (\<lambda>(t, F).
     and_then (getitem t 0) (\<lambda>t0.
     Inr (map (\<lambda>(ti, Fi). \<lparr>idx_conc = c, col_t = ti - t0, col_F = Fi, col_errF = sqrt Fi\<rparr>)
            (zip t F))))"

text \<open>
  \<^verbatim>\<open>for conc in concs: ...; data = data.append(d)\<close>, started from the empty frame.
  \<open>loadtxt c\<close> stands for
  \<^verbatim>\<open>np.loadtxt('data/fluorescence/quencher_{:1.1f}.txt'.format(c), unpack=True, skiprows=9)\<close>,
  which is library code reading a file.
\<close>

fun append_loop :: "(real \<Rightarrow> py_error + dataset) \<Rightarrow> real list \<Rightarrow> frame \<Rightarrow> py_error + frame" where
  "append_loop loadtxt [] data = Inr data"
| "append_loop loadtxt (c # cs) data =
     and_then (loadtxt c) (\<lambda>d.
     and_then (block c d) (\<lambda>b.
     append_loop loadtxt cs (data @ b)))"

definition concs :: "real list" where
  "concs = [0.0, 0.2, 0.5, 1.0, 1.5]"

text \<open>
  The cell ends with
  \<^verbatim>\<open>data.to_pickle('data/fluorescence.p')\<close> and
  \<^verbatim>\<open>data.to_csv('data/fluorescence.csv')\<close>.
  What a cell writes to disk is kept as a log of artifacts, in the order of the calls; an
  exception in the loop leaves the cell before either call.
\<close>

datatype artifact = ToPickle string frame | ToCsv string frame

definition build_and_save :: "(real \<Rightarrow> py_error + dataset) \<Rightarrow> (py_error + frame) \<times> artifact list" where
  "build_and_save loadtxt =
     (case append_loop loadtxt concs [] of
        Inl e \<Rightarrow> (Inl e, [])
      | Inr data \<Rightarrow>
          (Inr data, [ToPickle ''data/fluorescence.p'' data, ToCsv ''data/fluorescence.csv'' data]))"

section \<open>The single-curve fit\<close>

text \<open>
  \<^verbatim>\<open>def exp_decay(x, param):
    return param[0] * np.exp( - x / param[1] )\<close>
  with \<open>param\<close> the parameter vector of the optimizer, and
  \<^verbatim>\<open>def residuals(param, *args):
    return ( args[1] - exp_decay(args[0], param) ) / args[2] # residuals weighted by the error on y\<close>.
  The notebook defines \<open>residuals\<close> twice; this first one is \<open>residuals_single\<close>
  here and the later one, of the global fit, keeps the name.
\<close>

definition exp_decay :: "array \<Rightarrow> array \<Rightarrow> py_error + array" where
  "exp_decay x param =
     and_then (getitem param 0) (\<lambda>p0.
     and_then (getitem param 1) (\<lambda>p1.
     Inr (map (\<lambda>xi. p0 * exp (- (xi / p1))) x)))"

definition residuals_single :: "array \<Rightarrow> array list \<Rightarrow> py_error + array" where
  "residuals_single param args =
     and_then (getitem args 1) (\<lambda>y.
     and_then (getitem args 0) (\<lambda>x.
     and_then (exp_decay x param) (\<lambda>f.
     and_then (broadcast (-) y f) (\<lambda>d.
     and_then (getitem args 2) (\<lambda>yerr.
     broadcast (/) d yerr)))))"

section \<open>The global fit\<close>

text \<open>
  \<^verbatim>\<open>def decay(x, param):
    return param[0]*np.exp( - x/param[1] + param[3]*np.expm1(-param[2]*x) )\<close>
  with \<open>param\<close> the 4-tuple the caller builds.
\<close>

fun decay :: "array \<Rightarrow> real \<times> real \<times> real \<times> real \<Rightarrow> array" where
  "decay x (p0, p1, p2, p3) = map (\<lambda>xi. p0 * exp (- (xi / p1) + p3 * expm1 (- p2 * xi))) x"

text \<open>
  The body of the loop of the global \<open>residuals\<close>:
  \<^verbatim>\<open>param = p[0], p[1], p[2], m\<close>,
  \<^verbatim>\<open>r = ( args[1][i] - decay(args[0][i], param) ) / args[2][i]\<close>.
\<close>

definition residuals_body :: "array \<Rightarrow> array list list \<Rightarrow> nat \<Rightarrow> real \<Rightarrow> py_error + array" where
  "residuals_body p args i m =
     and_then (getitem p 0) (\<lambda>p0.
     and_then (getitem p 1) (\<lambda>p1.
     and_then (getitem p 2) (\<lambda>p2.
     and_then (getitem args 1) (\<lambda>ally.
     and_then (getitem ally i) (\<lambda>y.
     and_then (getitem args 0) (\<lambda>allx.
     and_then (getitem allx i) (\<lambda>x.
     and_then (broadcast (-) y (decay x (p0, p1, p2, m))) (\<lambda>d.
     and_then (getitem args 2) (\<lambda>allyerr.
     and_then (getitem allyerr i) (\<lambda>yerr.
     broadcast (/) d yerr))))))))))"

text \<open>
  \<^verbatim>\<open>for i,m in enumerate(p[3:]): ...; residuals = np.append(residuals, r)\<close>,
  started from \<^verbatim>\<open>np.empty(0)\<close>.
\<close>

fun residuals_loop :: "array \<Rightarrow> array list list \<Rightarrow> (nat \<times> real) list \<Rightarrow> array \<Rightarrow> py_error + array" where
  "residuals_loop p args [] acc = Inr acc"
| "residuals_loop p args ((i, m) # ims) acc =
     and_then (residuals_body p args i m) (\<lambda>r. residuals_loop p args ims (acc @ r))"

definition residuals :: "array \<Rightarrow> array list list \<Rightarrow> py_error + array" where
  "residuals p args = residuals_loop p args (enumerate 0 (drop 3 p)) []"

definition param0 :: "real list" where
  "param0 = [3000, 160, 0.04, 0] @ replicate 4 0.5"

section \<open>Error analysis of a fit\<close>

text \<open>
  A two-dimensional array carries its shape, so that an array with no rows still has its
  number of columns. For a well-formed array \<open>elems\<close> has \<open>nrows\<close> rows of \<open>ncols\<close>
  numbers each.
\<close>

record array2d =
  nrows :: nat
  ncols :: nat
  elems :: "real list list"

definition wf2d :: "array2d \<Rightarrow> bool" where
  "wf2d A = (length (elems A) = nrows A \<and> list_all (\<lambda>row. length row = ncols A) (elems A))"

text \<open>\<open>A.T\<close>, \<open>A[:r]\<close>, \<open>A * c\<close> for a scalar \<open>c\<close>, \<open>np.diag(A)\<close>.\<close>

definition transpose2d :: "array2d \<Rightarrow> array2d" where
  "transpose2d A =
     \<lparr>nrows = ncols A, ncols = nrows A,
      elems = map (\<lambda>j. map (\<lambda>row. row ! j) (elems A)) [0..<ncols A]\<rparr>"

definition take_rows :: "nat \<Rightarrow> array2d \<Rightarrow> array2d" where
  "take_rows r A = \<lparr>nrows = min r (nrows A), ncols = ncols A, elems = take r (elems A)\<rparr>"

definition scale :: "array2d \<Rightarrow> real \<Rightarrow> array2d" where
  "scale A c = \<lparr>nrows = nrows A, ncols = ncols A, elems = map (map (\<lambda>v. v * c)) (elems A)\<rparr>"

definition diag :: "array2d \<Rightarrow> array" where
  "diag A = map (\<lambda>i. elems A ! i ! i) [0..<min (nrows A) (ncols A)]"

text \<open>
  \<open>A / v\<close> for a one-dimensional \<open>v\<close>: \<open>v\<close> is broadcast along the last axis of
  \<open>A\<close>, row by row.
\<close>

definition div_rows :: "array2d \<Rightarrow> array \<Rightarrow> py_error + array2d" where
  "div_rows A v =
     (if ncols A = length v \<or> length v = 1 \<or> ncols A = 1
      then Inr \<lparr>nrows = nrows A, ncols = (if ncols A = 1 then length v else ncols A),
                elems = map (\<lambda>row. case broadcast (/) row v of Inr q \<Rightarrow> q | Inl e \<Rightarrow> [])
                          (elems A)\<rparr>
      else Inl ValueError)"

text \<open>The matrix product of well-formed arrays, and \<open>np.dot\<close> with its shape check.\<close>

definition matmul :: "array2d \<Rightarrow> array2d \<Rightarrow> array2d" where
  "matmul A B =
     \<lparr>nrows = nrows A, ncols = ncols B,
      elems = map (\<lambda>row. map (\<lambda>j. sum_list (map2 (*) row (map (\<lambda>r. r ! j) (elems B))))
                             [0..<ncols B]) (elems A)\<rparr>"

definition dot :: "array2d \<Rightarrow> array2d \<Rightarrow> py_error + array2d" where
  "dot A B = (if ncols A = nrows B then Inr (matmul A B) else Inl ValueError)"

text \<open>
  The result of the optimizer, as far as \<open>error_analysis\<close> reads it: \<open>res.cost\<close>,
  \<open>res.fun\<close>, \<open>res.x\<close>, \<open>res.jac\<close>.
\<close>

record opt_result =
  res_cost :: real
  res_fun :: array
  res_x :: array
  res_jac :: array2d

text \<open>\<open>np.finfo(float).eps\<close>, the gap between 1 and the next float64.\<close>

definition float_eps :: real where
  "float_eps = 1 / 2 ^ 52"

text \<open>
  \<^verbatim>\<open>rss = 2 * res.cost\<close>,
  \<^verbatim>\<open>s_sq = rss / (res.fun.size - res.x.size)\<close>: the difference of the two sizes is an
  integer and may be negative.
\<close>

definition residual_variance :: "opt_result \<Rightarrow> real" where
  "residual_variance res =
     2 * res_cost res / real_of_int (int (length (res_fun res)) - int (length (res_x res)))"

text \<open>
  \<^verbatim>\<open>_, s, VT = svd(res.jac, full_matrices=False)\<close>,
  \<^verbatim>\<open>threshold = np.finfo(float).eps * max(res.jac.shape) * s[0]\<close>,
  \<^verbatim>\<open>s = s[s > threshold]\<close>, \<^verbatim>\<open>VT = VT[:s.size]\<close>,
  \<^verbatim>\<open>pcov = np.dot(VT.T / s**2, VT) * s_sq\<close>.
  \<open>scipy.linalg.svd\<close> is library code: \<open>svd\<close> is a parameter that returns the triple
  \<open>(U, s, VT)\<close>.
\<close>

definition threshold :: "array2d \<Rightarrow> real \<Rightarrow> real" where
  "threshold J s0 = float_eps * real (max (nrows J) (ncols J)) * s0"

definition pcov :: "(array2d \<Rightarrow> array2d \<times> array \<times> array2d) \<Rightarrow> opt_result \<Rightarrow> py_error + array2d" where
  "pcov svd res =
     (case svd (res_jac res) of (U, s, VT) \<Rightarrow>
        and_then (getitem s 0) (\<lambda>s0.
        let s' = filter (\<lambda>v. threshold (res_jac res) s0 < v) s;
            VT' = take_rows (length s') VT
        in and_then (div_rows (transpose2d VT') (map (\<lambda>v. v ^ 2) s')) (\<lambda>q.
           and_then (dot q VT') (\<lambda>d.
           Inr (scale d (residual_variance res))))))"

text \<open>\<^verbatim>\<open>return np.sqrt(np.diag(pcov)), s_sq\<close>\<close>

definition error_analysis :: "(array2d \<Rightarrow> array2d \<times> array \<times> array2d) \<Rightarrow> opt_result \<Rightarrow> py_error + array \<times> real" where
  "error_analysis svd res =
     and_then (pcov svd res) (\<lambda>P. Inr (map sqrt (diag P), residual_variance res))"

text \<open>
  The four Penrose equations, which say that \<open>B\<close> is the Moore-Penrose inverse of
  \<open>A\<close> (for real matrices).
\<close>

definition moore_penrose :: "array2d \<Rightarrow> array2d \<Rightarrow> bool" where
  "moore_penrose A B =
     (matmul (matmul A B) A = A \<and> matmul (matmul B A) B = B \<and>
      transpose2d (matmul A B) = matmul A B \<and> transpose2d (matmul B A) = matmul B A)"

text \<open>
  The array of shape \<open>(m, n)\<close> with entries \<open>f i j\<close>, the identity and the diagonal
  matrix of a vector.
\<close>

definition mk2d :: "nat \<Rightarrow> nat \<Rightarrow> (nat \<Rightarrow> nat \<Rightarrow> real) \<Rightarrow> array2d" where
  "mk2d m n f = \<lparr>nrows = m, ncols = n, elems = map (\<lambda>i. map (\<lambda>j. f i j) [0..<n]) [0..<m]\<rparr>"

definition identity2d :: "nat \<Rightarrow> array2d" where
  "identity2d k = mk2d k k (\<lambda>i j. if i = j then 1 else 0)"

definition diag2d :: "array \<Rightarrow> array2d" where
  "diag2d s = mk2d (length s) (length s) (\<lambda>i j. if i = j then s ! i else 0)"

text \<open>
  What \<open>scipy.linalg.svd(J, full_matrices=False)\<close> is documented to return for a
  matrix \<open>J\<close> of shape \<open>(m, n)\<close> with \<open>k = min(m, n)\<close>: \<open>U\<close> of shape \<open>(m, k)\<close>
  with orthonormal columns, the \<open>k\<close> singular values \<open>s\<close>, non-negative and in
  non-increasing order, and \<open>VT\<close> of shape \<open>(k, n)\<close> with orthonormal rows, such that
  \<open>J = U diag(s) VT\<close>. The theorems about \<open>error_analysis\<close> assume it of the
  parameter \<open>svd\<close>.
\<close>

definition is_svd :: "array2d \<Rightarrow> array2d \<Rightarrow> array \<Rightarrow> array2d \<Rightarrow> bool" where
  "is_svd J U s VT =
     (wf2d U \<and> wf2d VT \<and>
      length s = min (nrows J) (ncols J) \<and>
      nrows U = nrows J \<and> ncols U = length s \<and>
      nrows VT = length s \<and> ncols VT = ncols J \<and>
      sorted_wrt (\<ge>) s \<and> list_all (\<lambda>v. 0 \<le> v) s \<and>
      matmul (transpose2d U) U = identity2d (length s) \<and>
      matmul VT (transpose2d VT) = identity2d (length s) \<and>
      matmul (matmul U (diag2d s)) VT = J)"

text \<open>
  \<open>J\<^sup>T J\<close> rebuilt from the first \<open>r\<close> singular values and right singular vectors
  only, \<open>V\<^sub>r diag(s\<^sub>r)\<^sup>2 V\<^sub>r\<^sup>T\<close>: what is left of \<open>J\<^sup>T J\<close> when the singular values
  after the first \<open>r\<close> are discarded.
\<close>

definition gram_retained :: "array \<Rightarrow> array2d \<Rightarrow> nat \<Rightarrow> array2d" where
  "gram_retained s VT r =
     mk2d (ncols VT) (ncols VT) (\<lambda>i j. \<Sum>k<r. (s ! k)\<^sup>2 * (elems VT ! k ! i) * (elems VT ! k ! j))"

section \<open>Properties\<close>

lemma and_then_Inr: "and_then (Inr v) f = f v"
  by (simp add: and_then_def)

lemma and_then_Inl: "and_then (Inl e) f = Inl e"
  by (simp add: and_then_def)

subsection \<open>The global residual vector\<close>

lemma residuals_loop_concat:
  assumes "\<And>i m. (i, m) \<in> set ims \<Longrightarrow> residuals_body p args i m = Inr (g i m)"
  shows "residuals_loop p args ims acc = Inr (acc @ concat (map (\<lambda>(i, m). g i m) ims))"
  using assms
proof (induction ims arbitrary: acc)
  case Nil
  then show ?case by simp
next
  case (Cons im ims)
  obtain i m where im: "im = (i, m)" by (cases im)
  have b: "residuals_body p args i m = Inr (g i m)"
    using Cons.prems im by simp
  have "residuals_loop p args ims (acc @ g i m) =
          Inr ((acc @ g i m) @ concat (map (\<lambda>(i, m). g i m) ims))"
    using Cons.prems by (intro Cons.IH) simp
  then show ?case
    by (simp add: im b and_then_Inr)
qed

lemma residuals_body_weighted:
  assumes "3 \<le> length p" "i < length allx" "i < length ally" "i < length allyerr"
    and "length (allx ! i) = length (ally ! i)" "length (allyerr ! i) = length (ally ! i)"
  shows "residuals_body p [allx, ally, allyerr] i m =
           Inr (map2 (/) (map2 (-) (ally ! i) (decay (allx ! i) (p ! 0, p ! 1, p ! 2, m)))
                         (allyerr ! i))"
proof -
  have "0 < length p" "1 < length p" "2 < length p"
    using assms(1) by linarith+
  then show ?thesis
    using assms by (simp add: residuals_body_def getitem_def and_then_Inr broadcast_def)
qed

lemma enumerate_drop3:
  "enumerate 0 (drop 3 p) = map (\<lambda>i. (i, p ! (3 + i))) [0..<length p - 3]"
  by (simp add: enumerate_eq_zip list_eq_iff_nth_eq)

lemma residuals_n_curves:
  assumes "length p = 3 + n" "n \<le> length allx" "n \<le> length ally" "n \<le> length allyerr"
    and "\<forall>i<n. length (allx ! i) = length (ally ! i) \<and> length (allyerr ! i) = length (ally ! i)"
  shows "residuals p [allx, ally, allyerr] =
           Inr (concat (map (\<lambda>i. map2 (/) (map2 (-) (ally ! i)
                                   (decay (allx ! i) (p ! 0, p ! 1, p ! 2, p ! (3 + i))))
                                 (allyerr ! i)) [0..<n]))"
proof -
  let ?g = "\<lambda>i m. map2 (/) (map2 (-) (ally ! i) (decay (allx ! i) (p ! 0, p ! 1, p ! 2, m)))
                         (allyerr ! i)"
  have en: "enumerate 0 (drop 3 p) = map (\<lambda>i. (i, p ! (3 + i))) [0..<n]"
    using assms(1) by (simp add: enumerate_drop3)
  have "residuals_loop p [allx, ally, allyerr] (map (\<lambda>i. (i, p ! (3 + i))) [0..<n]) [] =
          Inr ([] @ concat (map (\<lambda>(i, m). ?g i m) (map (\<lambda>i. (i, p ! (3 + i))) [0..<n])))"
  proof (rule residuals_loop_concat)
    fix i m assume "(i, m) \<in> set (map (\<lambda>i. (i, p ! (3 + i))) [0..<n])"
    then have "i < n" by auto
    then show "residuals_body p [allx, ally, allyerr] i m = Inr (?g i m)"
      using assms by (intro residuals_body_weighted) auto
  qed
  then show ?thesis
    by (simp add: residuals_def en comp_def)
qed

text \<open>
  Claim C1. For a parameter vector \<open>p\<close> of length 8 and three lists \<open>allx\<close>,
  \<open>ally\<close>, \<open>allyerr\<close> of five arrays each (curve \<open>i\<close> with arrays of one
  length), the global \<open>residuals\<close> returns, without raising, the concatenation in
  list order \<open>i = 0, ..., 4\<close> (the order of \<open>concs\<close> in which the caller builds
  the lists) of the weighted residual vectors
  \<open>(ally[i] - decay(allx[i], (p[0], p[1], p[2], p[3+i]))) / allyerr[i]\<close>:
  \<open>p[0]\<close>, \<open>p[1]\<close>, \<open>p[2]\<close> go to every curve and \<open>p[3+i]\<close> to curve \<open>i\<close> only.
\<close>

theorem residuals_global_concat:
  assumes "length p = 8" "length allx = 5" "length ally = 5" "length allyerr = 5"
    and "\<forall>i<5. length (allx ! i) = length (ally ! i) \<and> length (allyerr ! i) = length (ally ! i)"
  shows "residuals p [allx, ally, allyerr] =
           Inr (concat (map (\<lambda>i. map2 (/) (map2 (-) (ally ! i)
                                   (decay (allx ! i) (p ! 0, p ! 1, p ! 2, p ! (3 + i))))
                                 (allyerr ! i)) [0..<5]))"
proof -
  have "length p = 3 + 5"
    using assms(1) by simp
  from residuals_n_curves [OF this, of allx ally allyerr] assms(2-5)
  show ?thesis by simp
qed

theorem residuals_global_concat_witness:
  "length param0 = 8 \<and>
   residuals param0 [replicate 5 [0], replicate 5 [1], replicate 5 [1]] =
     Inr [-2999, -2999, -2999, -2999, -2999]"
proof -
  have len: "length param0 = 8"
    by (simp add: param0_def)
  have shapes: "\<forall>i<5. length (replicate 5 [0::real] ! i) = length (replicate 5 [1::real] ! i) \<and>
                      length (replicate 5 [1::real] ! i) = length (replicate 5 [1::real] ! i)"
    by simp
  have "residuals param0 [replicate 5 [0], replicate 5 [1], replicate 5 [1]] =
          Inr (concat (map (\<lambda>i. map2 (/) (map2 (-) (replicate 5 [1] ! i)
                 (decay (replicate 5 [0] ! i) (param0 ! 0, param0 ! 1, param0 ! 2, param0 ! (3 + i))))
                 (replicate 5 [1] ! i)) [0..<5]))"
    using residuals_global_concat [OF len _ _ _ shapes] by simp
  also have "\<dots> = Inr [-2999, -2999, -2999, -2999, -2999]"
    by (simp add: param0_def expm1_def upt_rec numeral_nat)
  finally show ?thesis
    using len by simp
qed


subsection \<open>The objective of the fits\<close>

lemma sum_list_concat_map:
  fixes f :: "real \<Rightarrow> real"
  shows "sum_list (map f (concat xss)) = sum_list (map (\<lambda>xs. sum_list (map f xs)) xss)"
  by (induction xss) simp_all

lemma residuals_single_weighted:
  assumes "2 \<le> length param" "length x = length y" "length yerr = length y"
  shows "residuals_single param [x, y, yerr] =
           Inr (map (\<lambda>i. (y ! i - param ! 0 * exp (- (x ! i / param ! 1))) / yerr ! i)
                  [0..<length y])"
proof -
  have "0 < length param" "1 < length param"
    using assms(1) by linarith+
  then have f: "exp_decay x param = Inr (map (\<lambda>xi. param ! 0 * exp (- (xi / param ! 1))) x)"
    by (simp add: exp_decay_def getitem_def and_then_Inr)
  have "residuals_single param [x, y, yerr] =
          Inr (map2 (/) (map2 (-) y (map (\<lambda>xi. param ! 0 * exp (- (xi / param ! 1))) x)) yerr)"
    using assms(2,3) by (simp add: residuals_single_def getitem_def and_then_Inr f broadcast_def)
  also have "map2 (/) (map2 (-) y (map (\<lambda>xi. param ! 0 * exp (- (xi / param ! 1))) x)) yerr =
          map (\<lambda>i. (y ! i - param ! 0 * exp (- (x ! i / param ! 1))) / yerr ! i) [0..<length y]"
    using assms(2,3) by (intro nth_equalityI) simp_all
  finally show ?thesis .
qed

text \<open>
  Claim C4, as amended. The residual vector handed to the optimizer is not
  \<open>y\<^sub>i - f(x\<^sub>i, \<beta>)\<close> but that difference divided by the error \<open>yerr\<^sub>i\<close> of the point
  (the source's comment: ``residuals weighted by the error on y''). So the sum of squares
  of the vector is the weighted sum \<open>\<Sum>\<^sub>i ((y\<^sub>i - f(x\<^sub>i, \<beta>)) / yerr\<^sub>i)\<^sup>2\<close>, for the
  single-curve fit with \<open>f = exp_decay\<close> and for the global fit curve by curve with
  \<open>f = decay\<close>.
\<close>

theorem weighted_residuals_objective:
  assumes "2 \<le> length param" "length x = length y" "length yerr = length y"
    and "length p = 8" "length allx = 5" "length ally = 5" "length allyerr = 5"
    and "\<forall>i<5. length (allx ! i) = length (ally ! i) \<and> length (allyerr ! i) = length (ally ! i)"
  shows "(\<exists>r. residuals_single param [x, y, yerr] = Inr r \<and> length r = length y \<and>
             (\<forall>i<length y. r ! i =
                (y ! i - param ! 0 * exp (- (x ! i / param ! 1))) / yerr ! i) \<and>
             (\<Sum>v\<leftarrow>r. v\<^sup>2) =
                (\<Sum>i<length y. ((y ! i - param ! 0 * exp (- (x ! i / param ! 1))) / yerr ! i)\<^sup>2)) \<and>
         (\<exists>r. residuals p [allx, ally, allyerr] = Inr r \<and>
             (\<Sum>v\<leftarrow>r. v\<^sup>2) =
                (\<Sum>i<5. \<Sum>v\<leftarrow>map2 (/) (map2 (-) (ally ! i)
                            (decay (allx ! i) (p ! 0, p ! 1, p ! 2, p ! (3 + i)))) (allyerr ! i). v\<^sup>2))"
proof
  let ?w = "\<lambda>i. (y ! i - param ! 0 * exp (- (x ! i / param ! 1))) / yerr ! i"
  let ?r = "map ?w [0..<length y]"
  have r: "residuals_single param [x, y, yerr] = Inr ?r"
    using assms(1-3) by (rule residuals_single_weighted)
  have "(\<Sum>v\<leftarrow>?r. v\<^sup>2) = (\<Sum>i\<leftarrow>[0..<length y]. (?w i)\<^sup>2)"
    by (simp add: comp_def)
  also have "\<dots> = (\<Sum>i<length y. (?w i)\<^sup>2)"
    by (simp add: interv_sum_list_conv_sum_set_nat atLeast0LessThan)
  finally have "(\<Sum>v\<leftarrow>?r. v\<^sup>2) = (\<Sum>i<length y. (?w i)\<^sup>2)" .
  with r show "\<exists>r. residuals_single param [x, y, yerr] = Inr r \<and> length r = length y \<and>
             (\<forall>i<length y. r ! i = ?w i) \<and>
             (\<Sum>v\<leftarrow>r. v\<^sup>2) = (\<Sum>i<length y. (?w i)\<^sup>2)"
    by simp
next
  let ?c = "\<lambda>i. map2 (/) (map2 (-) (ally ! i)
                 (decay (allx ! i) (p ! 0, p ! 1, p ! 2, p ! (3 + i)))) (allyerr ! i)"
  have "length p = 3 + 5" using assms(4) by simp
  from residuals_n_curves [OF this, of allx ally allyerr] assms(5-8)
  have r: "residuals p [allx, ally, allyerr] = Inr (concat (map ?c [0..<5]))"
    by simp
  have "(\<Sum>v\<leftarrow>concat (map ?c [0..<5]). v\<^sup>2) = (\<Sum>i\<leftarrow>[0..<5]. \<Sum>v\<leftarrow>?c i. v\<^sup>2)"
    by (simp only: sum_list_concat_map map_map comp_def)
  also have "\<dots> = (\<Sum>i<5. \<Sum>v\<leftarrow>?c i. v\<^sup>2)"
    by (simp only: interv_sum_list_conv_sum_set_nat set_upt atLeast0LessThan)
  finally show "\<exists>r. residuals p [allx, ally, allyerr] = Inr r \<and>
             (\<Sum>v\<leftarrow>r. v\<^sup>2) = (\<Sum>i<5. \<Sum>v\<leftarrow>?c i. v\<^sup>2)"
    using r by simp
qed

theorem weighted_residuals_objective_witness:
  "(\<exists>r. residuals_single [3, 1] [[0], [5], [2]] = Inr r \<and> r ! 0 = 1 \<and> (\<Sum>v\<leftarrow>r. v\<^sup>2) = 1) \<and>
   (\<exists>r. residuals param0 [replicate 5 [0], replicate 5 [1], replicate 5 [1]] = Inr r \<and>
        (\<Sum>v\<leftarrow>r. v\<^sup>2) = 5 * 2999\<^sup>2)"
proof -
  have len: "length param0 = 8"
    by (simp add: param0_def)
  have shapes: "\<forall>i<5. length (replicate 5 [0::real] ! i) = length (replicate 5 [1::real] ! i) \<and>
                      length (replicate 5 [1::real] ! i) = length (replicate 5 [1::real] ! i)"
    by simp
  have s: "(\<Sum>i<5. \<Sum>v\<leftarrow>map2 (/) (map2 (-) (replicate 5 [1] ! i)
              (decay (replicate 5 [0] ! i) (param0 ! 0, param0 ! 1, param0 ! 2, param0 ! (3 + i))))
              (replicate 5 [1] ! i). v\<^sup>2) = (\<Sum>i<(5::nat). (2999::real)\<^sup>2)"
    by (intro sum.cong) (simp_all add: param0_def expm1_def)
  from weighted_residuals_objective [of "[3, 1]" "[0]" "[5]" "[2]" param0
      "replicate 5 [0]" "replicate 5 [1]" "replicate 5 [1]", OF _ _ _ len _ _ _ shapes]
  have "(\<exists>r. residuals_single [3, 1] [[0], [5], [2]] = Inr r \<and> length r = Suc 0 \<and>
             r ! 0 = 1 \<and> (\<Sum>v\<leftarrow>r. v\<^sup>2) = 1) \<and>
        (\<exists>r. residuals param0 [replicate 5 [0], replicate 5 [1], replicate 5 [1]] = Inr r \<and>
             (\<Sum>v\<leftarrow>r. v\<^sup>2) = 5 * 2999\<^sup>2)"
    unfolding s by simp
  then show ?thesis by blast
qed


text \<open>
  The claim as stated fails at one data point \<open>x = 0\<close>, \<open>y = 5\<close>, \<open>yerr = 2\<close> with
  \<open>\<beta> = (3, 1)\<close>: the model value is 3, the unweighted residual would be 2, the
  function returns 1.
\<close>

theorem unweighted_rss_counterexample:
  "exp_decay [0] [3, 1] = Inr [3] \<and>
   residuals_single [3, 1] [[0], [5], [2]] = Inr [1] \<and>
   [1] \<noteq> map2 (-) [5] [3 :: real]"
  by (simp add: residuals_single_def exp_decay_def getitem_def and_then_def broadcast_def)


subsection \<open>Error analysis\<close>

lemma mk2d_shape [simp]: "nrows (mk2d m n f) = m" "ncols (mk2d m n f) = n"
  by (simp_all add: mk2d_def)

lemma mk2d_elems: "i < m \<Longrightarrow> j < n \<Longrightarrow> elems (mk2d m n f) ! i ! j = f i j"
  by (simp add: mk2d_def)

lemma mk2d_cong:
  assumes "\<And>i j. i < m \<Longrightarrow> j < n \<Longrightarrow> f i j = g i j"
  shows "mk2d m n f = mk2d m n g"
  using assms by (simp add: mk2d_def)

lemma wf2d_mk2d: "wf2d (mk2d m n f)"
  by (simp add: wf2d_def mk2d_def list_all_iff)

lemma wf2d_as_mk2d:
  assumes "wf2d A"
  shows "A = mk2d (nrows A) (ncols A) (\<lambda>i j. elems A ! i ! j)"
proof -
  have len: "length (elems A) = nrows A"
    and rows: "\<And>i. i < nrows A \<Longrightarrow> length (elems A ! i) = ncols A"
    using assms by (auto simp: wf2d_def list_all_iff)
  have "elems A = map (\<lambda>i. map (\<lambda>j. elems A ! i ! j) [0..<ncols A]) [0..<nrows A]"
  proof (rule nth_equalityI)
    show "length (elems A) = length (map (\<lambda>i. map (\<lambda>j. elems A ! i ! j) [0..<ncols A]) [0..<nrows A])"
      using len by simp
  next
    fix i assume "i < length (elems A)"
    then have i: "i < nrows A" using len by simp
    have "elems A ! i = map (\<lambda>j. elems A ! i ! j) [0..<ncols A]"
      using rows [OF i] by (intro nth_equalityI) simp_all
    then show "elems A ! i = map (\<lambda>i. map (\<lambda>j. elems A ! i ! j) [0..<ncols A]) [0..<nrows A] ! i"
      using i by simp
  qed
  then show ?thesis
    by (simp add: mk2d_def)
qed

lemma transpose2d_mk2d: "transpose2d (mk2d m n f) = mk2d n m (\<lambda>i j. f j i)"
  by (simp add: transpose2d_def mk2d_def)

lemma take_rows_mk2d: "take_rows r (mk2d m n f) = mk2d (min r m) n f"
proof -
  have "take r [0..<m] = [0..<min r m]"
    by (cases "r \<le> m") (simp_all add: min_def)
  then show ?thesis
    by (simp add: take_rows_def mk2d_def take_map)
qed

lemma scale_mk2d: "scale (mk2d m n f) c = mk2d m n (\<lambda>i j. f i j * c)"
  by (simp add: scale_def mk2d_def comp_def)

lemma diag_mk2d: "diag (mk2d m n f) = map (\<lambda>i. f i i) [0..<min m n]"
  by (simp add: diag_def mk2d_def)

lemma div_rows_mk2d:
  assumes "length v = n"
  shows "div_rows (mk2d m n f) v = Inr (mk2d m n (\<lambda>i j. f i j / v ! j))"
proof -
  have "map2 (/) (map (f i) [0..<n]) v = map (\<lambda>j. f i j / v ! j) [0..<n]" for i
    using assms by (intro nth_equalityI) simp_all
  then show ?thesis
    using assms by (simp add: div_rows_def mk2d_def broadcast_def)
qed

lemma matmul_mk2d:
  "matmul (mk2d m n f) (mk2d n p g) = mk2d m p (\<lambda>i j. \<Sum>k<n. f i k * g k j)"
proof -
  have "sum_list (map2 (*) (map (f i) [0..<n]) (map (\<lambda>r. r ! j) (elems (mk2d n p g)))) =
          (\<Sum>k<n. f i k * g k j)" if "j < p" for i j
  proof -
    have "map2 (*) (map (f i) [0..<n]) (map (\<lambda>r. r ! j) (elems (mk2d n p g))) =
            map (\<lambda>k. f i k * g k j) [0..<n]"
      using that by (intro nth_equalityI) (simp_all add: mk2d_def)
    then show ?thesis
      by (simp add: interv_sum_list_conv_sum_set_nat atLeast0LessThan)
  qed
  then show ?thesis
    by (simp add: matmul_def mk2d_def)
qed

lemma filter_sorted_take:
  fixes s :: "real list"
  assumes "sorted_wrt (\<ge>) s"
  shows "filter (\<lambda>v. t < v) s = take (length (filter (\<lambda>v. t < v) s)) s"
  using assms
proof (induction s)
  case Nil
  then show ?case by simp
next
  case (Cons a s)
  show ?case
  proof (cases "t < a")
    case True
    then show ?thesis using Cons by simp
  next
    case False
    then have "\<forall>v \<in> set s. \<not> t < v" using Cons.prems by fastforce
    then have "filter (\<lambda>v. t < v) s = []" by (simp add: filter_empty_conv)
    then show ?thesis using False by simp
  qed
qed

lemma orthonormal_product:
  fixes v :: "nat \<Rightarrow> nat \<Rightarrow> real"
  assumes "\<And>k l. k < r \<Longrightarrow> l < r \<Longrightarrow> (\<Sum>a<n. v k a * v l a) = (if k = l then 1 else 0)"
  shows "(\<Sum>a<n. (\<Sum>k<r. c k * v k i * v k a) * (\<Sum>l<r. d l * v l a * v l j)) =
           (\<Sum>k<r. (c k * d k) * v k i * v k j)"
proof -
  have "(\<Sum>a<n. (\<Sum>k<r. c k * v k i * v k a) * (\<Sum>l<r. d l * v l a * v l j)) =
          (\<Sum>a<n. \<Sum>k<r. \<Sum>l<r. (c k * v k i * v k a) * (d l * v l a * v l j))"
    by (simp add: sum_product)
  also have "\<dots> = (\<Sum>k<r. \<Sum>a<n. \<Sum>l<r. (c k * v k i * v k a) * (d l * v l a * v l j))"
    by (rule sum.swap)
  also have "\<dots> = (\<Sum>k<r. \<Sum>l<r. \<Sum>a<n. (c k * v k i * v k a) * (d l * v l a * v l j))"
    by (intro sum.cong refl sum.swap)
  also have "\<dots> = (\<Sum>k<r. \<Sum>l<r. (c k * d l * v k i * v l j) * (\<Sum>a<n. v k a * v l a))"
    by (intro sum.cong refl) (simp add: sum_distrib_left algebra_simps)
  also have "\<dots> = (\<Sum>k<r. \<Sum>l<r. if k = l then c k * d l * v k i * v l j else 0)"
    by (intro sum.cong refl) (simp add: assms)
  also have "\<dots> = (\<Sum>k<r. (c k * d k) * v k i * v k j)"
    by (intro sum.cong refl) (simp add: sum.delta)
  finally show ?thesis .
qed


lemma mk2d_eqD:
  assumes "mk2d m n f = mk2d m n g" "i < m" "j < n"
  shows "f i j = g i j"
proof -
  have "f i j = elems (mk2d m n f) ! i ! j"
    using assms(2,3) by (simp add: mk2d_elems)
  also have "\<dots> = elems (mk2d m n g) ! i ! j"
    by (simp only: assms(1))
  also have "\<dots> = g i j"
    using assms(2,3) by (simp add: mk2d_elems)
  finally show ?thesis .
qed

lemma orthonormal_gram:
  fixes u :: "nat \<Rightarrow> nat \<Rightarrow> real"
  assumes "\<And>k l. k < K \<Longrightarrow> l < K \<Longrightarrow> (\<Sum>a<m. u a k * u a l) = (if k = l then 1 else 0)"
  shows "(\<Sum>a<m. (\<Sum>k<K. u a k * c k) * (\<Sum>l<K. u a l * d l)) = (\<Sum>k<K. c k * d k)"
proof -
  have "(\<Sum>a<m. (\<Sum>k<K. u a k * c k) * (\<Sum>l<K. u a l * d l)) =
          (\<Sum>a<m. \<Sum>k<K. \<Sum>l<K. (u a k * c k) * (u a l * d l))"
    by (simp add: sum_product)
  also have "\<dots> = (\<Sum>k<K. \<Sum>a<m. \<Sum>l<K. (u a k * c k) * (u a l * d l))"
    by (rule sum.swap)
  also have "\<dots> = (\<Sum>k<K. \<Sum>l<K. \<Sum>a<m. (u a k * c k) * (u a l * d l))"
    by (intro sum.cong refl sum.swap)
  also have "\<dots> = (\<Sum>k<K. \<Sum>l<K. (c k * d l) * (\<Sum>a<m. u a k * u a l))"
    by (intro sum.cong refl) (simp add: sum_distrib_left algebra_simps)
  also have "\<dots> = (\<Sum>k<K. \<Sum>l<K. if k = l then c k * d l else 0)"
    by (intro sum.cong refl) (simp add: assms)
  also have "\<dots> = (\<Sum>k<K. c k * d k)"
    by (intro sum.cong refl) (simp add: sum.delta)
  finally show ?thesis .
qed

lemma retained_prefix:
  fixes s :: "real list" and t :: real
  assumes "sorted_wrt (\<ge>) s"
  defines "r \<equiv> length (filter (\<lambda>v. t < v) s)"
  shows "r \<le> length s" and "filter (\<lambda>v. t < v) s = take r s"
    and "\<And>k. k < r \<Longrightarrow> t < s ! k" and "\<And>k. r \<le> k \<Longrightarrow> k < length s \<Longrightarrow> s ! k \<le> t"
proof -
  show le: "r \<le> length s" by (simp add: r_def)
  show tk: "filter (\<lambda>v. t < v) s = take r s"
    unfolding r_def using assms(1) by (rule filter_sorted_take)
  show "t < s ! k" if "k < r" for k
  proof -
    have "s ! k = take r s ! k" using that by simp
    also have "\<dots> \<in> set (filter (\<lambda>v. t < v) s)"
      unfolding tk using that le by (intro nth_mem) simp
    finally show ?thesis by simp
  qed
  show "s ! k \<le> t" if "r \<le> k" "k < length s" for k
  proof (rule ccontr)
    assume "\<not> s ! k \<le> t"
    then have big: "t < s ! k" by simp
    have "\<forall>j\<le>k. t < s ! j"
    proof (intro allI impI)
      fix j assume "j \<le> k"
      then have "s ! k \<le> s ! j"
        using assms(1) that(2) by (cases "j = k") (auto simp: sorted_wrt_iff_nth_less)
      with big show "t < s ! j" by simp
    qed
    then have "filter (\<lambda>v. t < v) (take (Suc k) s) = take (Suc k) s"
      using that(2) by (auto simp: filter_id_conv in_set_conv_nth)
    moreover have "length (filter (\<lambda>v. t < v) (take (Suc k) s)) \<le> length (filter (\<lambda>v. t < v) s)"
    proof -
      have "filter (\<lambda>v. t < v) s =
              filter (\<lambda>v. t < v) (take (Suc k) s) @ filter (\<lambda>v. t < v) (drop (Suc k) s)"
        by (metis append_take_drop_id filter_append)
      then show ?thesis by simp
    qed
    ultimately have "Suc k \<le> r"
      using that(2) by (simp add: r_def)
    with that(1) show False by simp
  qed
qed


lemma penrose_rank_one:
  fixes v :: "nat \<Rightarrow> nat \<Rightarrow> real"
  assumes orth: "\<And>k l. k < r \<Longrightarrow> l < r \<Longrightarrow> (\<Sum>a<n. v k a * v l a) = (if k = l then 1 else 0)"
    and pos: "\<And>k. k < r \<Longrightarrow> c k \<noteq> 0"
  shows "moore_penrose (mk2d n n (\<lambda>i j. \<Sum>k<r. c k * v k i * v k j))
                       (mk2d n n (\<lambda>i j. \<Sum>k<r. (1 / c k) * v k i * v k j))"
proof -
  let ?M = "\<lambda>c. mk2d n n (\<lambda>i j. \<Sum>k<r. c k * v k i * v k j)"
  have op: "(\<Sum>a<n. (\<Sum>k<r. c k * v k i * v k a) * (\<Sum>l<r. d l * v l a * v l j)) =
               (\<Sum>k<r. (c k * d k) * v k i * v k j)" for c d i j
    by (rule orthonormal_product) (rule orth)
  have prod: "matmul (?M c) (?M d) = ?M (\<lambda>k. c k * d k)" for c d
    by (simp only: matmul_mk2d op)
  have cong: "?M c = ?M d" if "\<And>k. k < r \<Longrightarrow> c k = d k" for c d
    by (intro mk2d_cong sum.cong refl) (simp add: that)
  have sym: "transpose2d (?M c) = ?M c" for c
    unfolding transpose2d_mk2d by (intro mk2d_cong sum.cong refl) simp
  let ?A = "?M c" and ?B = "?M (\<lambda>k. 1 / c k)"
  have "matmul (matmul ?A ?B) ?A = ?M (\<lambda>k. c k * (1 / c k) * c k)"
    by (simp only: prod)
  also have "\<dots> = ?A"
    by (rule cong) (simp add: pos)
  finally have p1: "matmul (matmul ?A ?B) ?A = ?A" .
  have "matmul (matmul ?B ?A) ?B = ?M (\<lambda>k. 1 / c k * c k * (1 / c k))"
    by (simp only: prod)
  also have "\<dots> = ?B"
    by (rule cong) (simp add: pos)
  finally have p2: "matmul (matmul ?B ?A) ?B = ?B" .
  have p3: "transpose2d (matmul ?A ?B) = matmul ?A ?B"
    by (simp only: prod sym)
  have p4: "transpose2d (matmul ?B ?A) = matmul ?B ?A"
    by (simp only: prod sym)
  from p1 p2 p3 p4 show ?thesis
    unfolding moore_penrose_def by blast
qed

lemma pcov_entries:
  assumes "svd (res_jac res) = (U, s, mk2d K n v)" "length s = K" "0 < K" "sorted_wrt (\<ge>) s"
  shows "pcov svd res =
           Inr (scale (mk2d n n (\<lambda>i j. \<Sum>k<length (filter (\<lambda>v. threshold (res_jac res) (s ! 0) < v) s).
                                    (1 / (s ! k)\<^sup>2) * v k i * v k j))
                  (residual_variance res))"
proof -
  let ?t = "threshold (res_jac res) (s ! 0)"
  let ?r = "length (filter (\<lambda>v. ?t < v) s)"
  have r: "?r \<le> K" and tk: "filter (\<lambda>v. ?t < v) s = take ?r s"
    using retained_prefix(1,2) [OF assms(4), where t = ?t] assms(2) by simp_all
  have s0: "getitem s 0 = Inr (s ! 0)"
    using assms(2,3) by (simp add: getitem_def)
  have rows: "take_rows ?r (mk2d K n v) = mk2d ?r n v"
    using r by (simp add: take_rows_mk2d min_def)
  have len: "length (map (\<lambda>v. v ^ 2) (filter (\<lambda>v. ?t < v) s)) = ?r"
    by simp
  have q: "div_rows (transpose2d (mk2d ?r n v)) (map (\<lambda>v. v ^ 2) (filter (\<lambda>v. ?t < v) s)) =
             Inr (mk2d n ?r (\<lambda>i k. v k i / map (\<lambda>v. v ^ 2) (filter (\<lambda>v. ?t < v) s) ! k))"
    unfolding transpose2d_mk2d by (rule div_rows_mk2d) (rule len)
  have d: "dot (mk2d n ?r (\<lambda>i k. v k i / map (\<lambda>v. v ^ 2) (filter (\<lambda>v. ?t < v) s) ! k)) (mk2d ?r n v) =
             Inr (mk2d n n (\<lambda>i j. \<Sum>k<?r. v k i / map (\<lambda>v. v ^ 2) (filter (\<lambda>v. ?t < v) s) ! k * v k j))"
    by (simp add: dot_def matmul_mk2d)
  have e: "mk2d n n (\<lambda>i j. \<Sum>k<?r. v k i / map (\<lambda>v. v ^ 2) (filter (\<lambda>v. ?t < v) s) ! k * v k j) =
           mk2d n n (\<lambda>i j. \<Sum>k<?r. (1 / (s ! k)\<^sup>2) * v k i * v k j)"
  proof (intro mk2d_cong sum.cong refl)
    fix i j k assume "k \<in> {..<?r}"
    then have k: "k < ?r" by simp
    have "filter (\<lambda>v. ?t < v) s ! k = take ?r s ! k"
      using tk by simp
    also have "\<dots> = s ! k" using k by simp
    finally have "map (\<lambda>v. v ^ 2) (filter (\<lambda>v. ?t < v) s) ! k = (s ! k)\<^sup>2"
      using k by simp
    then show "v k i / map (\<lambda>v. v ^ 2) (filter (\<lambda>v. ?t < v) s) ! k * v k j =
                 (1 / (s ! k)\<^sup>2) * v k i * v k j"
      by simp
  qed
  show ?thesis
    unfolding pcov_def assms(1) prod.case s0 and_then_Inr Let_def rows q d e ..
qed


lemma svd_rows_orthonormal:
  assumes "matmul (mk2d K n v) (transpose2d (mk2d K n v)) = identity2d K" "k < K" "l < K"
  shows "(\<Sum>a<n. v k a * v l a) = (if k = l then 1 else 0)"
proof -
  have "mk2d K K (\<lambda>k l. \<Sum>a<n. v k a * v l a) = mk2d K K (\<lambda>i j. if i = j then 1 else 0)"
    using assms(1) by (simp only: transpose2d_mk2d matmul_mk2d identity2d_def)
  from mk2d_eqD [OF this assms(2,3)] show ?thesis .
qed

lemma svd_columns_orthonormal:
  assumes "matmul (transpose2d (mk2d m K u)) (mk2d m K u) = identity2d K" "k < K" "l < K"
  shows "(\<Sum>a<m. u a k * u a l) = (if k = l then 1 else 0)"
proof -
  have "mk2d K K (\<lambda>k l. \<Sum>a<m. u a k * u a l) = mk2d K K (\<lambda>i j. if i = j then 1 else 0)"
    using assms(1) by (simp only: transpose2d_mk2d matmul_mk2d identity2d_def)
  from mk2d_eqD [OF this assms(2,3)] show ?thesis .
qed

lemma svd_product_entries:
  assumes "matmul (matmul (mk2d m K u) (diag2d s)) (mk2d K n v) = mk2d m n jf"
    and "length s = K" "a < m" "i < n"
  shows "jf a i = (\<Sum>k<K. u a k * (s ! k * v k i))"
proof -
  have "matmul (mk2d m K u) (diag2d s) =
          mk2d m K (\<lambda>a k. \<Sum>l<K. u a l * (if l = k then s ! l else 0))"
    by (simp only: diag2d_def assms(2) matmul_mk2d)
  also have "\<dots> = mk2d m K (\<lambda>a k. u a k * s ! k)"
    by (intro mk2d_cong) (simp add: sum.delta' if_distrib [of "\<lambda>x. _ * x"] cong: if_cong)
  finally have "mk2d m n (\<lambda>a i. \<Sum>k<K. u a k * s ! k * v k i) = mk2d m n jf"
    using assms(1) by (simp only: matmul_mk2d)
  from mk2d_eqD [OF this assms(3,4)] show ?thesis
    by (simp add: mult.assoc)
qed


lemma gram_from_svd:
  fixes u v :: "nat \<Rightarrow> nat \<Rightarrow> real"
  assumes U: "matmul (transpose2d (mk2d m K u)) (mk2d m K u) = identity2d K"
    and J: "matmul (matmul (mk2d m K u) (diag2d s)) (mk2d K n v) = mk2d m n jf"
    and len: "length s = K" and r: "r \<le> K"
    and zero: "\<And>k. r \<le> k \<Longrightarrow> k < K \<Longrightarrow> s ! k = 0"
  shows "matmul (transpose2d (mk2d m n jf)) (mk2d m n jf) =
           mk2d n n (\<lambda>i j. \<Sum>k<r. (s ! k)\<^sup>2 * v k i * v k j)"
proof -
  have "(\<Sum>a<m. jf a i * jf a j) = (\<Sum>k<r. (s ! k)\<^sup>2 * v k i * v k j)"
    if "i < n" "j < n" for i j
  proof -
    have "(\<Sum>a<m. jf a i * jf a j) =
            (\<Sum>a<m. (\<Sum>k<K. u a k * (s ! k * v k i)) * (\<Sum>l<K. u a l * (s ! l * v l j)))"
      by (intro sum.cong refl) (simp add: svd_product_entries [OF J len] that)
    also have "\<dots> = (\<Sum>k<K. (s ! k * v k i) * (s ! k * v k j))"
      by (rule orthonormal_gram) (rule svd_columns_orthonormal [OF U])
    also have "\<dots> = (\<Sum>k<K. (s ! k)\<^sup>2 * v k i * v k j)"
      by (intro sum.cong refl) (simp add: power2_eq_square algebra_simps)
    also have "\<dots> = (\<Sum>k = 0..<r. (s ! k)\<^sup>2 * v k i * v k j) +
                      (\<Sum>k = r..<K. (s ! k)\<^sup>2 * v k i * v k j)"
      using r by (simp add: lessThan_atLeast0 sum.atLeastLessThan_concat)
    also have "(\<Sum>k = r..<K. (s ! k)\<^sup>2 * v k i * v k j) = 0"
      by (intro sum.neutral) (simp add: zero)
    finally show ?thesis
      by (simp add: lessThan_atLeast0)
  qed
  then show ?thesis
    unfolding transpose2d_mk2d matmul_mk2d by (intro mk2d_cong) simp
qed

text \<open>
  Claim C3. Let \<open>svd\<close> return for the Jacobian \<open>J\<close> what a singular-value
  decomposition is (\<open>is_svd\<close>), \<open>J\<close> being a well-formed matrix with \<open>n\<close> columns, at
  least one row and one column. Write \<open>s_sq = 2 * res.cost / (res.fun.size - res.x.size)\<close>,
  \<open>thr = 2\<^sup>-\<^sup>5\<^sup>2 * max(jac.shape) * s[0]\<close> for the cut-off and \<open>r\<close> for the number of
  singular values greater than \<open>thr\<close>. Then there is an \<open>n \<times> n\<close> matrix \<open>B\<close> that
  satisfies the four Penrose equations with \<open>J\<^sup>T J\<close> rebuilt from the \<open>r\<close> singular
  values above the cut-off, that is, \<open>B\<close> is its Moore-Penrose inverse; \<open>pcov\<close> is the
  matrix with entries \<open>B[i][j] * s_sq\<close>; and \<open>error_analysis\<close> returns the pair of the
  vector of the \<open>sqrt (B[i][i] * s_sq)\<close> and \<open>s_sq\<close>. Where every singular value that
  does not exceed the cut-off is zero, the rebuilt matrix is \<open>J\<^sup>T J\<close> itself.
\<close>

theorem error_analysis_pseudo_inverse:
  assumes svd: "svd (res_jac res) = (U, s, VT)"
    and contract: "is_svd (res_jac res) U s VT"
    and wf: "wf2d (res_jac res)"
    and dims: "0 < nrows (res_jac res)" "0 < ncols (res_jac res)"
  shows "let J = res_jac res;
             s_sq = 2 * res_cost res / (real (length (res_fun res)) - real (length (res_x res)));
             thr = 1 / 2 ^ 52 * real (max (nrows J) (ncols J)) * s ! 0;
             r = length (filter (\<lambda>v. thr < v) s)
         in (\<exists>B. wf2d B \<and> nrows B = ncols J \<and> ncols B = ncols J \<and>
                  moore_penrose (gram_retained s VT r) B \<and>
                  pcov svd res = Inr (mk2d (ncols J) (ncols J) (\<lambda>i j. elems B ! i ! j * s_sq)) \<and>
                  error_analysis svd res =
                    Inr (map (\<lambda>i. sqrt (elems B ! i ! i * s_sq)) [0..<ncols J], s_sq)) \<and>
            (list_all (\<lambda>v. v \<le> thr \<longrightarrow> v = 0) s \<longrightarrow>
               gram_retained s VT r = matmul (transpose2d J) J)"
proof -
  let ?J = "res_jac res"
  let ?t = "threshold ?J (s ! 0)"
  let ?r = "length (filter (\<lambda>v. ?t < v) s)"
  let ?sq = "residual_variance res"
  define K where "K = length s"
  define m where "m = nrows ?J"
  define n where "n = ncols ?J"
  define u where "u = (\<lambda>a k. elems U ! a ! k)"
  define v where "v = (\<lambda>k i. elems VT ! k ! i)"
  define jf where "jf = (\<lambda>a i. elems ?J ! a ! i)"
  have thr: "1 / 2 ^ 52 * real (max (nrows ?J) (ncols ?J)) * s ! 0 = ?t"
    by (simp add: threshold_def float_eps_def)
  have sq: "2 * res_cost res / (real (length (res_fun res)) - real (length (res_x res))) = ?sq"
    by (simp add: residual_variance_def)
  have Jm: "?J = mk2d m n jf"
    using wf2d_as_mk2d [OF wf] by (simp add: m_def n_def jf_def)
  have Um: "U = mk2d m K u"
    using contract wf2d_as_mk2d [of U] by (simp add: is_svd_def m_def K_def u_def)
  have Vm: "VT = mk2d K n v"
    using contract wf2d_as_mk2d [of VT] by (simp add: is_svd_def n_def K_def v_def)
  have K: "0 < K"
    using contract dims by (simp add: is_svd_def K_def)
  have sorted: "sorted_wrt (\<ge>) s" and nonneg: "\<And>k. k < K \<Longrightarrow> 0 \<le> s ! k"
    using contract by (simp_all add: is_svd_def K_def list_all_length)
  have UU: "matmul (transpose2d (mk2d m K u)) (mk2d m K u) = identity2d K"
    and VV: "matmul (mk2d K n v) (transpose2d (mk2d K n v)) = identity2d K"
    and USV: "matmul (matmul (mk2d m K u) (diag2d s)) (mk2d K n v) = mk2d m n jf"
    using contract unfolding is_svd_def K_def [symmetric] Um Vm Jm by blast+
  have r: "?r \<le> K" and above: "\<And>k. k < ?r \<Longrightarrow> ?t < s ! k"
    and below: "\<And>k. ?r \<le> k \<Longrightarrow> k < K \<Longrightarrow> s ! k \<le> ?t"
    using retained_prefix(1,3,4) [OF sorted, where t = ?t] by (simp_all add: K_def)
  have t0: "0 \<le> ?t"
    using nonneg [OF K] by (simp add: threshold_def float_eps_def)
  let ?b = "\<lambda>i j. \<Sum>k<?r. (1 / (s ! k)\<^sup>2) * v k i * v k j"
  let ?B = "mk2d n n ?b"
  have G: "gram_retained s VT ?r = mk2d n n (\<lambda>i j. \<Sum>k<?r. (s ! k)\<^sup>2 * v k i * v k j)"
  proof -
    have "ncols VT = n"
      using contract by (simp add: is_svd_def n_def)
    then show ?thesis
      by (simp add: gram_retained_def v_def)
  qed
  have orth: "(\<Sum>a<n. v k a * v l a) = (if k = l then 1 else 0)" if "k < ?r" "l < ?r" for k l
    using svd_rows_orthonormal [OF VV, of k l] that r by simp
  have "(s ! k)\<^sup>2 \<noteq> 0" if "k < ?r" for k
    using above [OF that] t0 by simp
  with orth have mp: "moore_penrose (gram_retained s VT ?r) ?B"
    unfolding G by (intro penrose_rank_one) simp_all
  have pc: "pcov svd res = Inr (scale ?B ?sq)"
  proof -
    have svd': "svd ?J = (U, s, mk2d K n v)"
      unfolding Vm [symmetric] by (rule svd)
    have "length s = K"
      by (simp add: K_def)
    from pcov_entries [where svd = svd and res = res and v = v, OF svd' this K sorted]
    show ?thesis .
  qed
  have sc: "scale ?B ?sq = mk2d n n (\<lambda>i j. elems ?B ! i ! j * ?sq)"
    unfolding scale_mk2d by (intro mk2d_cong) (simp add: mk2d_elems)
  have pc': "pcov svd res = Inr (mk2d n n (\<lambda>i j. elems ?B ! i ! j * ?sq))"
    using pc sc by simp
  have "map sqrt (diag (mk2d n n (\<lambda>i j. elems ?B ! i ! j * ?sq))) =
          map (\<lambda>i. sqrt (elems ?B ! i ! i * ?sq)) [0..<n]"
    by (simp add: diag_mk2d comp_def)
  then have ea: "error_analysis svd res =
                   Inr (map (\<lambda>i. sqrt (elems ?B ! i ! i * ?sq)) [0..<n], ?sq)"
    by (simp add: error_analysis_def pc' and_then_Inr)
  have gram: "gram_retained s VT ?r = matmul (transpose2d ?J) ?J"
    if z: "list_all (\<lambda>v. v \<le> ?t \<longrightarrow> v = 0) s"
  proof -
    have "s ! k = 0" if "?r \<le> k" "k < K" for k
      using z below [OF that] that(2) by (simp add: list_all_length K_def)
    from gram_from_svd [OF UU USV _ r this] show ?thesis
      unfolding G by (simp add: K_def Jm [symmetric])
  qed
  have wfB: "wf2d ?B" "nrows ?B = n" "ncols ?B = n"
    by (simp_all add: wf2d_mk2d)
  have thr': "1 / 2 ^ 52 * real (max (nrows ?J) n) * s ! 0 = ?t"
    using thr by (simp add: n_def)
  from wfB mp pc' ea gram show ?thesis
    unfolding Let_def n_def [symmetric] unfolding thr' sq by blast
qed

text \<open>
  Two runs of \<open>error_analysis\<close>. In the first the second singular value is zero and is
  discarded. In the second it is \<open>2\<^sup>-\<^sup>5\<^sup>2\<close>, not zero, and does not exceed the cut-off
  \<open>3 * 2\<^sup>-\<^sup>5\<^sup>2\<close> of a \<open>3 \<times> 2\<close> Jacobian with \<open>s[0] = 1\<close>: it is discarded too, and the
  error of the second parameter is \<open>0\<close>.
\<close>

theorem error_analysis_pseudo_inverse_witness:
  "is_svd \<lparr>nrows = 3, ncols = 2, elems = [[2, 0], [0, 0], [0, 0]]\<rparr>
          \<lparr>nrows = 3, ncols = 2, elems = [[1, 0], [0, 1], [0, 0]]\<rparr> [2, 0]
          \<lparr>nrows = 2, ncols = 2, elems = [[1, 0], [0, 1]]\<rparr> \<and>
   error_analysis
     (\<lambda>A. (\<lparr>nrows = 3, ncols = 2, elems = [[1, 0], [0, 1], [0, 0]]\<rparr>, [2, 0],
           \<lparr>nrows = 2, ncols = 2, elems = [[1, 0], [0, 1]]\<rparr>))
     \<lparr>res_cost = 3 / 2, res_fun = [1, 1, 1], res_x = [5, 7],
      res_jac = \<lparr>nrows = 3, ncols = 2, elems = [[2, 0], [0, 0], [0, 0]]\<rparr>\<rparr> =
     Inr ([sqrt (3 / 4), 0], 3) \<and>
   (\<exists>B. moore_penrose
          (matmul (transpose2d \<lparr>nrows = 3, ncols = 2, elems = [[2, 0], [0, 0], [0, 0]]\<rparr>)
             \<lparr>nrows = 3, ncols = 2, elems = [[2, 0], [0, 0], [0, 0]]\<rparr>) B \<and>
        pcov
          (\<lambda>A. (\<lparr>nrows = 3, ncols = 2, elems = [[1, 0], [0, 1], [0, 0]]\<rparr>, [2, 0],
                \<lparr>nrows = 2, ncols = 2, elems = [[1, 0], [0, 1]]\<rparr>))
          \<lparr>res_cost = 3 / 2, res_fun = [1, 1, 1], res_x = [5, 7],
           res_jac = \<lparr>nrows = 3, ncols = 2, elems = [[2, 0], [0, 0], [0, 0]]\<rparr>\<rparr> =
        Inr (mk2d 2 2 (\<lambda>i j. elems B ! i ! j * 3))) \<and>
   is_svd \<lparr>nrows = 3, ncols = 2, elems = [[1, 0], [0, 1 / 2 ^ 52], [0, 0]]\<rparr>
          \<lparr>nrows = 3, ncols = 2, elems = [[1, 0], [0, 1], [0, 0]]\<rparr> [1, 1 / 2 ^ 52]
          \<lparr>nrows = 2, ncols = 2, elems = [[1, 0], [0, 1]]\<rparr> \<and>
   error_analysis
     (\<lambda>A. (\<lparr>nrows = 3, ncols = 2, elems = [[1, 0], [0, 1], [0, 0]]\<rparr>, [1, 1 / 2 ^ 52],
           \<lparr>nrows = 2, ncols = 2, elems = [[1, 0], [0, 1]]\<rparr>))
     \<lparr>res_cost = 3 / 2, res_fun = [1, 1, 1], res_x = [5, 7],
      res_jac = \<lparr>nrows = 3, ncols = 2, elems = [[1, 0], [0, 1 / 2 ^ 52], [0, 0]]\<rparr>\<rparr> =
     Inr ([sqrt 3, 0], 3) \<and>
   (\<exists>B. moore_penrose
          (gram_retained [1, 1 / 2 ^ 52] \<lparr>nrows = 2, ncols = 2, elems = [[1, 0], [0, 1]]\<rparr> 1) B \<and>
        error_analysis
          (\<lambda>A. (\<lparr>nrows = 3, ncols = 2, elems = [[1, 0], [0, 1], [0, 0]]\<rparr>, [1, 1 / 2 ^ 52],
                \<lparr>nrows = 2, ncols = 2, elems = [[1, 0], [0, 1]]\<rparr>))
          \<lparr>res_cost = 3 / 2, res_fun = [1, 1, 1], res_x = [5, 7],
           res_jac = \<lparr>nrows = 3, ncols = 2, elems = [[1, 0], [0, 1 / 2 ^ 52], [0, 0]]\<rparr>\<rparr> =
        Inr (map (\<lambda>i. sqrt (elems B ! i ! i * 3)) [0..<2], 3))"
proof -
  let ?U = "\<lparr>nrows = 3, ncols = 2, elems = [[1, 0], [0, 1], [0, 0]]\<rparr>"
  let ?V = "\<lparr>nrows = 2, ncols = 2, elems = [[1, 0], [0, 1]]\<rparr>"
  let ?J1 = "\<lparr>nrows = 3, ncols = 2, elems = [[2, 0], [0, 0], [0, 0]]\<rparr>"
  let ?svd1 = "\<lambda>A::array2d. (?U, [2, 0::real], ?V)"
  let ?res1 = "\<lparr>res_cost = 3 / 2, res_fun = [1, 1, 1], res_x = [5, 7], res_jac = ?J1\<rparr>"
  let ?J2 = "\<lparr>nrows = 3, ncols = 2, elems = [[1, 0], [0, 1 / 2 ^ 52], [0, 0]]\<rparr>"
  let ?svd2 = "\<lambda>A::array2d. (?U, [1, 1 / 2 ^ 52 :: real], ?V)"
  let ?res2 = "\<lparr>res_cost = 3 / 2, res_fun = [1, 1, 1], res_x = [5, 7], res_jac = ?J2\<rparr>"
  have up2: "[0..<2] = [0, 1]" and up3: "[0..<3] = [0, 1, 2]"
    by (simp_all add: upt_rec)
  have c1: "is_svd ?J1 ?U [2, 0] ?V"
    by (simp add: is_svd_def wf2d_def matmul_def transpose2d_def identity2d_def diag2d_def
        mk2d_def up2 up3)
  have c2: "is_svd ?J2 ?U [1, 1 / 2 ^ 52] ?V"
    by (simp add: is_svd_def wf2d_def matmul_def transpose2d_def identity2d_def diag2d_def
        mk2d_def up2 up3)
  have w1: "wf2d (res_jac ?res1)" and w2: "wf2d (res_jac ?res2)"
    by (simp_all add: wf2d_def)
  have d1: "0 < nrows (res_jac ?res1)" "0 < ncols (res_jac ?res1)"
    and d2: "0 < nrows (res_jac ?res2)" "0 < ncols (res_jac ?res2)"
    by simp_all
  have c1': "is_svd (res_jac ?res1) ?U [2, 0] ?V" and c2': "is_svd (res_jac ?res2) ?U [1, 1 / 2 ^ 52] ?V"
    using c1 c2 by simp_all
  note th1 = error_analysis_pseudo_inverse [where svd = ?svd1 and res = ?res1,
      OF refl c1' w1 d1, unfolded Let_def]
  note th2 = error_analysis_pseudo_inverse [where svd = ?svd2 and res = ?res2,
      OF refl c2' w2 d2, unfolded Let_def]
  have t1: "\<exists>B. moore_penrose (gram_retained [2, 0] ?V 1) B \<and>
                pcov ?svd1 ?res1 = Inr (mk2d 2 2 (\<lambda>i j. elems B ! i ! j * 3))"
    using th1 [THEN conjunct1] by simp blast
  have g1: "gram_retained [2, 0] ?V 1 = matmul (transpose2d ?J1) ?J1"
    using th1 [THEN conjunct2] by simp
  have ex1: "\<exists>B. moore_penrose (matmul (transpose2d ?J1) ?J1) B \<and>
                 pcov ?svd1 ?res1 = Inr (mk2d 2 2 (\<lambda>i j. elems B ! i ! j * 3))"
    using t1 unfolding g1 .
  have ex2: "\<exists>B. moore_penrose (gram_retained [1, 1 / 2 ^ 52] ?V 1) B \<and>
        error_analysis ?svd2 ?res2 = Inr (map (\<lambda>i. sqrt (elems B ! i ! i * 3)) [0..<2], 3)"
    using th2 [THEN conjunct1] by simp blast
  have ev1: "error_analysis ?svd1 ?res1 = Inr ([sqrt (3 / 4), 0], 3)"
    by (simp add: error_analysis_def pcov_def and_then_def getitem_def threshold_def
        float_eps_def take_rows_def transpose2d_def div_rows_def broadcast_def dot_def
        matmul_def scale_def diag_def residual_variance_def up2)
  have ev2: "error_analysis ?svd2 ?res2 = Inr ([sqrt 3, 0], 3)"
    by (simp add: error_analysis_def pcov_def and_then_def getitem_def threshold_def
        float_eps_def take_rows_def transpose2d_def div_rows_def broadcast_def dot_def
        matmul_def scale_def diag_def residual_variance_def up2)
  from c1 ev1 ex1 c2 ev2 ex2 show ?thesis by blast
qed

subsection \<open>Maximum, argmax and the two truncations\<close>

lemma amax_Max: "xs \<noteq> [] \<Longrightarrow> amax xs = Inr (Max (set xs))"
proof (cases xs)
  case Nil
  assume "xs \<noteq> []"
  with Nil show ?thesis by simp
next
  case (Cons x r)
  have "fold max r x = Max (set (x # r))"
    by (rule Max.set_eq_fold [symmetric])
  then show ?thesis
    by (simp add: amax_def Cons)
qed

lemma amax_empty: "amax [] = Inl ValueError"
  by (simp add: amax_def)

lemma first_index_less: "v \<in> set xs \<Longrightarrow> first_index v xs < length xs"
  by (induction xs) auto

lemma first_index_nth: "v \<in> set xs \<Longrightarrow> xs ! first_index v xs = v"
  by (induction xs) auto

lemma first_index_before: "j < first_index v xs \<Longrightarrow> xs ! j \<noteq> v"
proof (induction xs arbitrary: j)
  case Nil
  then show ?case by simp
next
  case (Cons x xs)
  then show ?case by (cases j) (auto split: if_splits)
qed

lemma argmax_nonempty:
  assumes "xs \<noteq> []"
  shows "argmax xs = Inr (first_index (Max (set xs)) xs)"
    and "first_index (Max (set xs)) xs < length xs"
    and "xs ! first_index (Max (set xs)) xs = Max (set xs)"
proof -
  have "Max (set xs) \<in> set xs"
    using assms by (intro Max_in) simp_all
  then show "first_index (Max (set xs)) xs < length xs"
    and "xs ! first_index (Max (set xs)) xs = Max (set xs)"
    by (simp_all add: first_index_less first_index_nth)
  show "argmax xs = Inr (first_index (Max (set xs)) xs)"
    using assms by (simp add: argmax_def amax_Max and_then_Inr)
qed

lemma truncate_slice_drop:
  assumes "d \<noteq> []"
  shows "truncate_slice d =
           Inr (map fst (drop (first_index (Max (set (map snd d))) (map snd d)) d),
                map snd (drop (first_index (Max (set (map snd d))) (map snd d)) d))"
  using assms by (simp add: truncate_slice_def argmax_nonempty(1) and_then_Inr drop_map Let_def)

lemma truncate_slice_empty: "truncate_slice [] = Inl ValueError"
  by (simp add: truncate_slice_def argmax_def amax_def and_then_Inl)

lemma filter_eq_drop:
  assumes "n \<le> length d"
    and "\<And>i. i < n \<Longrightarrow> \<not> P (d ! i)"
    and "\<And>i. n \<le> i \<Longrightarrow> i < length d \<Longrightarrow> P (d ! i)"
  shows "filter P d = drop n d"
proof -
  have t: "filter P (take n d) = []"
    using assms(1,2) by (auto simp: filter_empty_conv in_set_conv_nth)
  have "\<forall>r \<in> set (drop n d). P r"
  proof
    fix r assume "r \<in> set (drop n d)"
    then obtain i where i: "i < length d - n" "r = d ! (n + i)"
      using assms(1) by (auto simp: in_set_conv_nth)
    have "n + i < length d" using i(1) by linarith
    then show "P r" using assms(3) [of "n + i"] i(2) by simp
  qed
  then have dr: "filter P (drop n d) = drop n d"
    by (simp add: filter_id_conv)
  have "filter P d = filter P (take n d) @ filter P (drop n d)"
    by (metis append_take_drop_id filter_append)
  then show ?thesis by (simp add: t dr)
qed

lemma sorted_times_from:
  fixes d :: dataset
  assumes "sorted_wrt (<) (map fst d)" "k < length d"
  shows "filter (\<lambda>r. fst (d ! k) \<le> fst r) d = drop k d"
proof (rule filter_eq_drop)
  show "k \<le> length d" using assms(2) by simp
next
  fix i assume "i < k"
  then have "fst (d ! i) < fst (d ! k)"
    using assms by (simp add: sorted_wrt_iff_nth_less)
  then show "\<not> fst (d ! k) \<le> fst (d ! i)" by simp
next
  fix i assume i: "k \<le> i" "i < length d"
  show "fst (d ! k) \<le> fst (d ! i)"
  proof (cases "i = k")
    case True
    then show ?thesis by simp
  next
    case False
    then have "k < i" using i(1) by simp
    then have "fst (d ! k) < fst (d ! i)"
      using assms(1) i(2) by (simp add: sorted_wrt_iff_nth_less)
    then show ?thesis by simp
  qed
qed

lemma sorted_times_after:
  fixes d :: dataset
  assumes "sorted_wrt (<) (map fst d)" "k < length d"
  shows "filter (\<lambda>r. fst (d ! k) < fst r) d = drop (Suc k) d"
proof (rule filter_eq_drop)
  show "Suc k \<le> length d" using assms(2) by simp
next
  fix i assume "i < Suc k"
  then have "i = k \<or> i < k" by auto
  then have "fst (d ! i) \<le> fst (d ! k)"
  proof
    assume "i = k" then show ?thesis by simp
  next
    assume "i < k"
    then have "fst (d ! i) < fst (d ! k)"
      using assms by (simp add: sorted_wrt_iff_nth_less)
    then show ?thesis by simp
  qed
  then show "\<not> fst (d ! k) < fst (d ! i)" by simp
next
  fix i assume i: "Suc k \<le> i" "i < length d"
  then have "k < i" by simp
  then show "fst (d ! k) < fst (d ! i)"
    using assms(1) i(2) by (simp add: sorted_wrt_iff_nth_less)
qed

lemma mask_select: "map fst (filter snd (zip d (map p d))) = filter p d"
  by (induction d) auto

lemma truncate_mask_unique_peak:
  assumes "filter (\<lambda>r. snd r = Max (set (map snd d))) d = [pk]"
  shows "truncate_mask d = Inr (filter (\<lambda>r. fst pk < fst r) d)"
proof -
  have ne: "d \<noteq> []" using assms by auto
  have "broadcast (\<lambda>a b. b < a) (map fst d) [fst pk] = Inr (map (\<lambda>r. fst pk < fst r) d)"
  proof (cases "length d = 1")
    case True
    then obtain r where "d = [r]" by (cases d) auto
    then show ?thesis by (simp add: broadcast_def)
  next
    case False
    then show ?thesis by (simp add: broadcast_def comp_def)
  qed
  then show ?thesis
    using ne assms
    by (simp add: truncate_mask_def amax_Max and_then_Inr mask_select)
qed

lemma truncate_mask_drops_peak:
  assumes "sorted_wrt (<) (map fst d)"
    and "filter (\<lambda>r. snd r = Max (set (map snd d))) d = [pk]"
  shows "truncate_mask d = Inr (drop (Suc (first_index (Max (set (map snd d))) (map snd d))) d)"
proof -
  let ?F = "map snd d"
  let ?k = "first_index (Max (set ?F)) ?F"
  have ne: "?F \<noteq> []" using assms(2) by auto
  have k: "?k < length d" and mx: "?F ! ?k = Max (set ?F)"
    using argmax_nonempty(2,3) [OF ne] by simp_all
  have "d ! ?k \<in> set (filter (\<lambda>r. snd r = Max (set ?F)) d)"
    using k mx by simp
  then have "d ! ?k \<in> set [pk]" by (simp only: assms(2))
  then have "d ! ?k = pk" by simp
  then show ?thesis
    using truncate_mask_unique_peak [OF assms(2)] sorted_times_after [OF assms(1) k] by simp
qed

lemma truncate_slice_from_peak:
  assumes "d \<noteq> []" "sorted_wrt (<) (map fst d)"
  shows "truncate_slice d =
           Inr (map fst (filter (\<lambda>r. fst (d ! first_index (Max (set (map snd d))) (map snd d)) \<le> fst r) d),
                map snd (filter (\<lambda>r. fst (d ! first_index (Max (set (map snd d))) (map snd d)) \<le> fst r) d))"
proof -
  have "first_index (Max (set (map snd d))) (map snd d) < length d"
    using argmax_nonempty(2) [of "map snd d"] assms(1) by simp
  from sorted_times_from [OF assms(2) this] show ?thesis
    using assms(1) by (simp add: truncate_slice_drop)
qed

text \<open>
  Claim C2. With increasing times the slicing cell keeps exactly the rows from the first
  maximum on (\<open>truncate_slice_from_peak\<close>), as the claim says. The masking cell does
  not: its comparison is strict, so the row of the maximum itself goes too
  (\<open>truncate_mask_drops_peak\<close>), against the comment on its own line (``points before
  the intesity max are discarded''). On the rows \<open>(0, 1), (1, 5), (2, 3)\<close> the peak row
  \<open>(1, 5)\<close> is lost; and where the maximum count occurs twice among three rows the
  comparison of a 3-array with a 2-array raises.
\<close>

theorem mask_discards_peak_row:
  "truncate_mask [(0, 1), (1, 5), (2, 3)] = Inr [(2, 3)] \<and>
   truncate_mask [(0, 1), (1, 5), (2, 5)] = Inl ValueError"
  by (simp add: truncate_mask_def amax_def broadcast_def and_then_def)

text \<open>
  Claim C8. The two truncations are not the same function: on the rows
  \<open>(1, 2), (2, 9), (3, 4)\<close> the slice keeps the peak row \<open>(2, 9)\<close> and the row after
  it, the mask keeps only the row after it.
\<close>

theorem truncations_differ_at_peak:
  "truncate_slice [(1, 2), (2, 9), (3, 4)] = Inr ([2, 3], [9, 4]) \<and>
   truncate_mask [(1, 2), (2, 9), (3, 4)] = Inr [(3, 4)]"
  by (simp add: truncate_slice_def truncate_mask_def argmax_def amax_def broadcast_def
      and_then_def)

subsection \<open>The combined dataframe\<close>

lemma zip_fst_snd: "zip (map fst xs) (map snd xs) = xs"
  by (induction xs) auto

lemma block_rows:
  assumes "d \<noteq> []"
  shows "block c d =
           Inr (map (\<lambda>(ti, Fi). \<lparr>idx_conc = c,
                                  col_t = ti - fst (d ! first_index (Max (set (map snd d))) (map snd d)),
                                  col_F = Fi, col_errF = sqrt Fi\<rparr>)
                  (drop (first_index (Max (set (map snd d))) (map snd d)) d))"
proof -
  let ?k = "first_index (Max (set (map snd d))) (map snd d)"
  have ne: "map snd d \<noteq> []" using assms by simp
  have k: "?k < length d"
    using argmax_nonempty(2) [OF ne] by simp
  then have "getitem (map fst (drop ?k d)) 0 = Inr (fst (d ! ?k))"
    by (simp add: getitem_def)
  then show ?thesis
    using assms by (simp add: block_def truncate_slice_drop and_then_Inr zip_fst_snd)
qed

lemma block_empty: "block c [] = Inl ValueError"
  by (simp add: block_def truncate_slice_empty and_then_Inl)

lemma block_props:
  assumes "block c d = Inr b"
  shows "b \<noteq> []" and "col_t (hd b) = 0"
    and "\<And>r. r \<in> set b \<Longrightarrow> idx_conc r = c \<and> col_errF r = sqrt (col_F r)"
proof -
  let ?k = "first_index (Max (set (map snd d))) (map snd d)"
  have ne: "d \<noteq> []" using assms by (auto simp: block_empty)
  then have k: "?k < length d"
    using argmax_nonempty(2) [of "map snd d"] by simp
  then obtain r rs where dr: "drop ?k d = r # rs" and r: "r = d ! ?k"
    by (metis Cons_nth_drop_Suc)
  have b: "b = map (\<lambda>(ti, Fi). \<lparr>idx_conc = c, col_t = ti - fst (d ! ?k),
                                 col_F = Fi, col_errF = sqrt Fi\<rparr>) (drop ?k d)"
    using assms block_rows [OF ne, of c] by simp
  show "b \<noteq> []" using b dr by simp
  show "col_t (hd b) = 0" using b dr r by (simp add: case_prod_beta)
  show "\<And>r. r \<in> set b \<Longrightarrow> idx_conc r = c \<and> col_errF r = sqrt (col_F r)"
    using b by auto
qed

lemma append_loop_concat:
  assumes "\<And>c. c \<in> set cs \<Longrightarrow> and_then (loadtxt c) (block c) = Inr (g c)"
  shows "append_loop loadtxt cs data = Inr (data @ concat (map g cs))"
  using assms
proof (induction cs arbitrary: data)
  case Nil
  then show ?case by simp
next
  case (Cons c cs)
  have "and_then (loadtxt c) (block c) = Inr (g c)"
    using Cons.prems by simp
  then obtain d where d: "loadtxt c = Inr d" "block c d = Inr (g c)"
    by (cases "loadtxt c") (auto simp: and_then_def)
  have "append_loop loadtxt cs (data @ g c) = Inr ((data @ g c) @ concat (map g cs))"
    using Cons.prems by (intro Cons.IH) simp
  then show ?case
    by (simp add: d and_then_Inr)
qed

lemma append_loop_Inr:
  assumes "append_loop loadtxt cs data = Inr data'"
  shows "\<exists>g. (\<forall>c \<in> set cs. and_then (loadtxt c) (block c) = Inr (g c)) \<and>
              data' = data @ concat (map g cs)"
  using assms
proof (induction cs arbitrary: data)
  case Nil
  then show ?case by simp
next
  case (Cons c cs)
  from Cons.prems obtain d b where d: "loadtxt c = Inr d" and b: "block c d = Inr b"
    and rest: "append_loop loadtxt cs (data @ b) = Inr data'"
    by (auto simp: and_then_def split: sum.splits)
  from Cons.IH [OF rest] obtain g
    where g: "\<forall>c \<in> set cs. and_then (loadtxt c) (block c) = Inr (g c)"
      and data': "data' = (data @ b) @ concat (map g cs)"
    by blast
  have cb: "and_then (loadtxt c) (block c) = Inr b"
    by (simp add: d b and_then_Inr)
  have "\<forall>c' \<in> set (c # cs). and_then (loadtxt c') (block c') = Inr ((g(c := b)) c')"
    using g cb by auto
  moreover have "data' = data @ concat (map (g(c := b)) (c # cs))"
  proof (cases "c \<in> set cs")
    case True
    then have "g c = b" using g cb by simp
    then have "g(c := b) = g" by auto
    then show ?thesis using data' \<open>g c = b\<close> by simp
  next
    case False
    then have "map (g(c := b)) cs = map g cs" by (intro map_cong) auto
    then have "concat (map (g(c := b)) (c # cs)) = b @ concat (map g cs)"
      by (simp only: list.map concat.simps fun_upd_same)
    then show ?thesis using data' by (simp only: append_assoc)
  qed
  ultimately show ?case by blast
qed


text \<open>
  Claim C9. When each of the five files loads to a non-empty dataset, the loop returns the
  combined dataframe, every row of it has \<open>errF = sqrt F\<close>, and for each concentration
  the rows with that index are not empty and the first of them has \<open>t = 0\<close>.
\<close>

theorem combined_frame_invariants:
  assumes "\<forall>c \<in> set concs. \<exists>d. loadtxt c = Inr d \<and> d \<noteq> []"
  shows "\<exists>data. append_loop loadtxt concs [] = Inr data \<and>
           (\<forall>r \<in> set data. col_errF r = sqrt (col_F r)) \<and>
           (\<forall>c \<in> set concs. filter (\<lambda>r. idx_conc r = c) data \<noteq> [] \<and>
                               col_t (hd (filter (\<lambda>r. idx_conc r = c) data)) = 0)"
proof -
  define g where "g c = (case and_then (loadtxt c) (block c) of Inr b \<Rightarrow> b | Inl e \<Rightarrow> [])" for c
  have blk: "and_then (loadtxt c) (block c) = Inr (g c)" if "c \<in> set concs" for c
  proof -
    from assms that obtain d where d: "loadtxt c = Inr d" "d \<noteq> []" by blast
    then show ?thesis
      by (simp add: g_def and_then_Inr block_rows)
  qed
  have props: "g c \<noteq> [] \<and> col_t (hd (g c)) = 0 \<and>
               (\<forall>r \<in> set (g c). idx_conc r = c \<and> col_errF r = sqrt (col_F r))"
    if "c \<in> set concs" for c
  proof -
    from assms that obtain d where d: "loadtxt c = Inr d" by blast
    with blk [OF that] have "block c d = Inr (g c)" by (simp add: and_then_Inr)
    from block_props [OF this] show ?thesis by blast
  qed
  let ?data = "concat (map g concs)"
  have run: "append_loop loadtxt concs [] = Inr ?data"
    using append_loop_concat [of concs loadtxt g "[]"] blk by simp
  have err: "\<forall>r \<in> set ?data. col_errF r = sqrt (col_F r)"
    using props by auto
  have first: "filter (\<lambda>r. idx_conc r = c) ?data \<noteq> [] \<and>
               col_t (hd (filter (\<lambda>r. idx_conc r = c) ?data)) = 0"
    if c: "c \<in> set concs" for c
  proof -
    have "\<And>cs. set cs \<subseteq> set concs \<Longrightarrow> c \<in> set cs \<Longrightarrow>
            filter (\<lambda>r. idx_conc r = c) (concat (map g cs)) \<noteq> [] \<and>
            col_t (hd (filter (\<lambda>r. idx_conc r = c) (concat (map g cs)))) = 0"
    proof -
      fix cs show "set cs \<subseteq> set concs \<Longrightarrow> c \<in> set cs \<Longrightarrow>
            filter (\<lambda>r. idx_conc r = c) (concat (map g cs)) \<noteq> [] \<and>
            col_t (hd (filter (\<lambda>r. idx_conc r = c) (concat (map g cs)))) = 0"
      proof (induction cs)
        case Nil
        then show ?case by simp
      next
        case (Cons a cs)
        have a: "a \<in> set concs" using Cons.prems(1) by simp
        show ?case
        proof (cases "a = c")
          case True
          have all: "filter (\<lambda>r. idx_conc r = c) (g c) = g c"
            using props [OF c] by (simp add: filter_id_conv)
          have ne: "g c \<noteq> []" and z: "col_t (hd (g c)) = 0"
            using props [OF c] by simp_all
          show ?thesis
            using True all ne z by simp
        next
          case False
          have none: "filter (\<lambda>r. idx_conc r = c) (g a) = []"
            using props [OF a] False by (auto simp: filter_empty_conv)
          have "c \<in> set cs" using Cons.prems(2) False by simp
          moreover have "set cs \<subseteq> set concs" using Cons.prems(1) by simp
          ultimately show ?thesis
            using Cons.IH none by simp
        qed
      qed
    qed
    from this [of concs] c show ?thesis by simp
  qed
  from run err first show ?thesis by blast
qed


theorem combined_frame_invariants_witness:
  "append_loop (\<lambda>c. Inr [(1, 2), (2, 9), (3, 4)]) concs [] =
     Inr (concat (map (\<lambda>c. [\<lparr>idx_conc = c, col_t = 0, col_F = 9, col_errF = sqrt 9\<rparr>,
                              \<lparr>idx_conc = c, col_t = 1, col_F = 4, col_errF = sqrt 4\<rparr>]) concs)) \<and>
   (\<exists>data. append_loop (\<lambda>c. Inr [(1, 2), (2, 9), (3, 4)]) concs [] = Inr data \<and>
      list_all (\<lambda>r. col_errF r = sqrt (col_F r)) data \<and>
      list_all (\<lambda>c. col_t (hd (filter (\<lambda>r. idx_conc r = c) data)) = 0) concs)"
proof -
  have "\<forall>c \<in> set concs. \<exists>d. (Inr [(1, 2), (2, 9), (3, 4)] :: py_error + dataset) = Inr d \<and> d \<noteq> []"
    by simp
  from combined_frame_invariants [of "\<lambda>c. Inr [(1, 2), (2, 9), (3, 4)]", OF this]
  have ex: "\<exists>data. append_loop (\<lambda>c. Inr [(1, 2), (2, 9), (3, 4)]) concs [] = Inr data \<and>
      list_all (\<lambda>r. col_errF r = sqrt (col_F r)) data \<and>
      list_all (\<lambda>c. col_t (hd (filter (\<lambda>r. idx_conc r = c) data)) = 0) concs"
    unfolding list_all_iff by blast
  have "append_loop (\<lambda>c. Inr [(1, 2), (2, 9), (3, 4)]) concs [] =
     Inr (concat (map (\<lambda>c. [\<lparr>idx_conc = c, col_t = 0, col_F = 9, col_errF = sqrt 9\<rparr>,
                              \<lparr>idx_conc = c, col_t = 1, col_F = 4, col_errF = sqrt 4\<rparr>]) concs))"
    by (simp add: concs_def and_then_def block_def truncate_slice_def argmax_def amax_def
        getitem_def)
  with ex show ?thesis by blast
qed

text \<open>
  Claim C6. The cell writes nothing when loading or the loop raises; otherwise it writes
  exactly two artifacts, a pickle and then a CSV file, both of the one dataframe that the
  loop has finished: the blocks of the five concentrations, each truncated and shifted by
  \<open>block\<close> and indexed by its concentration, appended in the order of \<open>concs\<close>.
\<close>

theorem persisted_outputs:
  "(\<exists>e. build_and_save loadtxt = (Inl e, [])) \<or>
   (\<exists>g. (\<forall>c \<in> set concs. and_then (loadtxt c) (block c) = Inr (g c) \<and>
                            (\<forall>r \<in> set (g c). idx_conc r = c)) \<and>
        build_and_save loadtxt =
          (Inr (concat (map g concs)),
           [ToPickle ''data/fluorescence.p'' (concat (map g concs)),
            ToCsv ''data/fluorescence.csv'' (concat (map g concs))]))"
proof (cases "append_loop loadtxt concs []")
  case (Inl e)
  then show ?thesis by (simp add: build_and_save_def)
next
  case (Inr data)
  from append_loop_Inr [OF this] obtain g
    where g: "\<forall>c \<in> set concs. and_then (loadtxt c) (block c) = Inr (g c)"
      and data: "data = concat (map g concs)"
    by auto
  have "\<forall>r \<in> set (g c). idx_conc r = c" if "c \<in> set concs" for c
  proof -
    from g that obtain d where "block c d = Inr (g c)"
      by (cases "loadtxt c") (auto simp: and_then_def)
    from block_props(3) [OF this] show ?thesis by blast
  qed
  with g have "\<forall>c \<in> set concs. and_then (loadtxt c) (block c) = Inr (g c) \<and>
                            (\<forall>r \<in> set (g c). idx_conc r = c)"
    by blast
  moreover have "build_and_save loadtxt =
          (Inr (concat (map g concs)),
           [ToPickle ''data/fluorescence.p'' (concat (map g concs)),
            ToCsv ''data/fluorescence.csv'' (concat (map g concs))])"
    using Inr data by (simp add: build_and_save_def)
  ultimately show ?thesis by blast
qed

theorem persisted_outputs_witness:
  "build_and_save (\<lambda>c. Inr [(0, 1), (5, 16), (7, 9)]) =
     (Inr (concat (map (\<lambda>c. [\<lparr>idx_conc = c, col_t = 0, col_F = 16, col_errF = sqrt 16\<rparr>,
                               \<lparr>idx_conc = c, col_t = 2, col_F = 9, col_errF = sqrt 9\<rparr>]) concs)),
      [ToPickle ''data/fluorescence.p''
         (concat (map (\<lambda>c. [\<lparr>idx_conc = c, col_t = 0, col_F = 16, col_errF = sqrt 16\<rparr>,
                               \<lparr>idx_conc = c, col_t = 2, col_F = 9, col_errF = sqrt 9\<rparr>]) concs)),
       ToCsv ''data/fluorescence.csv''
         (concat (map (\<lambda>c. [\<lparr>idx_conc = c, col_t = 0, col_F = 16, col_errF = sqrt 16\<rparr>,
                               \<lparr>idx_conc = c, col_t = 2, col_F = 9, col_errF = sqrt 9\<rparr>]) concs))]) \<and>
   build_and_save (\<lambda>c. if c = 0.5 then Inl OSError else Inr [(0, 1), (5, 16), (7, 9)]) =
     (Inl OSError, [])"
proof -
  let ?L = "\<lambda>c::real. (Inr [(0, 1), (5, 16), (7, 9)] :: py_error + dataset)"
  let ?b = "\<lambda>c. [\<lparr>idx_conc = c, col_t = 0, col_F = 16, col_errF = sqrt 16\<rparr>,
                  \<lparr>idx_conc = c, col_t = 2, col_F = 9, col_errF = sqrt 9\<rparr>]"
  have blk: "and_then (?L c) (block c) = Inr (?b c)" for c
    by (simp add: and_then_def block_def truncate_slice_def argmax_def amax_def getitem_def)
  from persisted_outputs [of ?L]
  obtain g where g: "\<forall>c \<in> set concs. and_then (?L c) (block c) = Inr (g c)"
    and sv: "build_and_save ?L =
          (Inr (concat (map g concs)),
           [ToPickle ''data/fluorescence.p'' (concat (map g concs)),
            ToCsv ''data/fluorescence.csv'' (concat (map g concs))])"
    by (auto simp: build_and_save_def concs_def and_then_def block_def truncate_slice_def
        argmax_def amax_def getitem_def)
  have "map g concs = map ?b concs"
    using g blk by (intro map_cong) auto
  with sv have one: "build_and_save ?L =
          (Inr (concat (map ?b concs)),
           [ToPickle ''data/fluorescence.p'' (concat (map ?b concs)),
            ToCsv ''data/fluorescence.csv'' (concat (map ?b concs))])"
    by simp
  have two: "build_and_save (\<lambda>c. if c = 0.5 then Inl OSError else Inr [(0, 1), (5, 16), (7, 9)]) =
     (Inl OSError, [])"
    by (simp add: build_and_save_def concs_def and_then_def block_def truncate_slice_def
        argmax_def amax_def getitem_def)
  from one two show ?thesis by blast
qed


end
